theory Spec2Isabelle
  imports Main "HOL-Library.Word"
begin

unbundle bit_operations_syntax

section \<open>The counter word of \<open>sticky_zero_counter.hpp\<close>\<close>

text \<open>
  \<open>StickyCounter\<close> holds one \<open>std::atomic<uint64_t> counter_{1}\<close>. The two most
  significant bits are flags (\<open>is_zero = 1ull << 63\<close>, \<open>help = 1ull << 62\<close>), the
  remaining 62 bits are the count. \<open>help\<close> is a command of the proof language, so the
  second constant is called \<open>help_flag\<close> here.
\<close>

type_synonym uint64 = "64 word"

definition is_zero :: uint64 where
  "is_zero = push_bit 63 1"

definition help_flag :: uint64 where
  "help_flag = push_bit 62 1"

text \<open>The three fields of the word, as the data model names them.\<close>

definition live_count :: "uint64 \<Rightarrow> uint64" where
  "live_count w = w AND (help_flag - 1)"

definition dead :: "uint64 \<Rightarrow> bool" where
  "dead w = (w AND is_zero \<noteq> 0)"

definition assist :: "uint64 \<Rightarrow> bool" where
  "assist w = (w AND help_flag \<noteq> 0)"

subsection \<open>The atomic operations of \<open>std::atomic<uint64_t>\<close>\<close>

text \<open>
  Each is one indivisible action on the word. \<open>fetch_add\<close> and \<open>fetch_sub\<close> give the
  value held before the action paired with the word after it; unsigned arithmetic wraps.
  \<open>compare_exchange_strong c expected desired\<close> gives the success flag, the value left
  in the caller's \<open>expected\<close> variable (the word found, on failure) and the word after.
\<close>

definition fetch_add :: "uint64 \<Rightarrow> uint64 \<Rightarrow> uint64 \<times> uint64" where
  "fetch_add c n = (c, c + n)"

definition fetch_sub :: "uint64 \<Rightarrow> uint64 \<Rightarrow> uint64 \<times> uint64" where
  "fetch_sub c n = (c, c - n)"

definition load :: "uint64 \<Rightarrow> uint64" where
  "load c = c"

definition compare_exchange_strong :: "uint64 \<Rightarrow> uint64 \<Rightarrow> uint64 \<Rightarrow> bool \<times> uint64 \<times> uint64" where
  "compare_exchange_strong c expected desired =
     (if c = expected then (True, expected, desired) else (False, c, c))"

section \<open>The three member functions, one atomic action at a time\<close>

text \<open>
  Between two atomic actions of one call other threads may act on the word, so a call is
  cut at its atomic actions. A program point names the next atomic action of a call;
  \<open>Decrement_cas2 v\<close> carries the local variable \<open>v\<close> as the first exchange left it.
\<close>

datatype ret = RetIncrement bool | RetDecrement bool | RetRead uint64

datatype pc =
    Increment_fetch_add
  | Decrement_fetch_sub
  | Decrement_cas1
  | Decrement_cas2 uint64
  | Read_load
  | Read_cas

datatype outcome = Next pc | Return ret

text \<open>
  \<open>atomic_step p c\<close> performs the atomic action at \<open>p\<close> on the word \<open>c\<close>, then the
  thread-local code up to the next atomic action or the \<open>return\<close>.
  In \<open>Decrement\<close> the test before the second exchange is \<open>(v | help)\<close>, a bitwise or.
\<close>

fun atomic_step :: "pc \<Rightarrow> uint64 \<Rightarrow> outcome \<times> uint64" where
  "atomic_step Increment_fetch_add c =
     (let (old, c') = fetch_add c 1
      in (if old AND is_zero \<noteq> 0 then Return (RetIncrement False)
          else Return (RetIncrement True), c'))"
| "atomic_step Decrement_fetch_sub c =
     (let (old, c') = fetch_sub c 1
      in (if old = 1 then Next Decrement_cas1 else Return (RetDecrement False), c'))"
| "atomic_step Decrement_cas1 c =
     (let (ok, v, c') = compare_exchange_strong c 0 is_zero
      in (if ok then Return (RetDecrement True)
          else if (v OR help_flag) \<noteq> 0 then Next (Decrement_cas2 v)
          else Return (RetDecrement False), c'))"
| "atomic_step (Decrement_cas2 v) c =
     (let (ok, v', c') = compare_exchange_strong c v is_zero
      in (if ok then Return (RetDecrement True) else Return (RetDecrement False), c'))"
| "atomic_step Read_load c =
     (let v = load c
      in (if v = 0 then Next Read_cas
          else Return (RetRead (if v AND is_zero \<noteq> 0 then 0 else v)), c))"
| "atomic_step Read_cas c =
     (let (ok, v, c') = compare_exchange_strong c 0 (is_zero OR help_flag)
      in (if ok then Return (RetRead 0)
          else Return (RetRead (if v AND is_zero \<noteq> 0 then 0 else v)), c'))"

subsection \<open>A call that runs undisturbed\<close>

text \<open>The number of atomic actions a call at a program point can still perform.\<close>

fun remaining :: "pc \<Rightarrow> nat" where
  "remaining Increment_fetch_add = 1"
| "remaining Decrement_fetch_sub = 3"
| "remaining Decrement_cas1 = 2"
| "remaining (Decrement_cas2 v) = 1"
| "remaining Read_load = 2"
| "remaining Read_cas = 1"

function run_op :: "pc \<Rightarrow> uint64 \<Rightarrow> ret \<times> uint64" where
  "run_op p c =
     (case atomic_step p c of
        (Return r, c') \<Rightarrow> (r, c')
      | (Next p', c') \<Rightarrow> run_op p' c')"
  by pat_completeness auto
termination
proof (relation "measure (\<lambda>(p, c). remaining p)", goal_cases)
  case 1
  show ?case by simp
next
  case (2 p c x p' c')
  then show ?case
    by (cases p) (auto simp: Let_def split: prod.splits if_splits)
qed

declare run_op.simps [simp del]

definition Increment :: "uint64 \<Rightarrow> ret \<times> uint64" where
  "Increment c = run_op Increment_fetch_add c"

definition Decrement :: "uint64 \<Rightarrow> ret \<times> uint64" where
  "Decrement c = run_op Decrement_fetch_sub c"

definition Read :: "uint64 \<Rightarrow> ret \<times> uint64" where
  "Read c = run_op Read_load c"

section \<open>Threads sharing one counter\<close>

text \<open>
  A thread is idle (\<open>None\<close>) or inside a call at a program point. The scheduler picks, one
  at a time, a thread that starts a call (and performs its first atomic action) or a
  thread inside a call that performs its next one. An event that is not enabled is
  skipped. Every atomic action performed is appended to the trace with the thread,
  the program point, the word before and after, and what the thread does next.
\<close>

datatype oper = OpIncrement | OpDecrement | OpRead

fun entry_point :: "oper \<Rightarrow> pc" where
  "entry_point OpIncrement = Increment_fetch_add"
| "entry_point OpDecrement = Decrement_fetch_sub"
| "entry_point OpRead = Read_load"

datatype event = Start nat oper | Cont nat

record action =
  a_tid :: nat
  a_pc :: pc
  a_old :: uint64
  a_new :: uint64
  a_out :: outcome

record config =
  counter :: uint64
  threads :: "nat \<Rightarrow> pc option"
  trace :: "action list"

definition init :: config where
  "init = \<lparr>counter = 1, threads = (\<lambda>t. None), trace = []\<rparr>"

definition perform :: "nat \<Rightarrow> pc \<Rightarrow> config \<Rightarrow> config" where
  "perform t p s =
     (let (out, c') = atomic_step p (counter s)
      in \<lparr>counter = c',
          threads = (threads s)(t := (case out of Next p' \<Rightarrow> Some p' | Return r \<Rightarrow> None)),
          trace = trace s @ [\<lparr>a_tid = t, a_pc = p, a_old = counter s, a_new = c', a_out = out\<rparr>]\<rparr>)"

fun step :: "event \<Rightarrow> config \<Rightarrow> config" where
  "step (Start t oper) s =
     (case threads s t of None \<Rightarrow> perform t (entry_point oper) s | Some p \<Rightarrow> s)"
| "step (Cont t) s =
     (case threads s t of None \<Rightarrow> s | Some p \<Rightarrow> perform t p s)"

fun run :: "event list \<Rightarrow> config \<Rightarrow> config" where
  "run [] s = s"
| "run (e # es) s = run es (step e s)"

subsection \<open>What a trace shows\<close>

text \<open>The values returned, in the order the calls returned, with the calling thread.\<close>

fun returned :: "action list \<Rightarrow> (nat \<times> ret) list" where
  "returned [] = []"
| "returned (a # as) =
     (case a_out a of Return r \<Rightarrow> (a_tid a, r) # returned as | Next p \<Rightarrow> returned as)"

definition count_actions :: "(action \<Rightarrow> bool) \<Rightarrow> config \<Rightarrow> nat" where
  "count_actions P s = length (filter P (trace s))"

text \<open>Additions and subtractions performed on the word.\<close>

definition adds :: "config \<Rightarrow> nat" where
  "adds = count_actions (\<lambda>a. a_pc a = Increment_fetch_add)"

definition subs :: "config \<Rightarrow> nat" where
  "subs = count_actions (\<lambda>a. a_pc a = Decrement_fetch_sub)"

text \<open>Ownership outstanding: the implicit initial increment, plus additions, minus subtractions.\<close>

definition outstanding :: "config \<Rightarrow> int" where
  "outstanding s = 1 + int (adds s) - int (subs s)"

text \<open>Subtractions that found the word at 1 and so drove it to 0 (the test of \<open>Decrement\<close>).\<close>

definition zero_crossings :: "config \<Rightarrow> nat" where
  "zero_crossings = count_actions (\<lambda>a. a_pc a = Decrement_fetch_sub \<and> a_old a = 1)"

text \<open>Calls of \<open>Decrement\<close> that returned true.\<close>

definition decrement_winners :: "config \<Rightarrow> nat" where
  "decrement_winners = count_actions (\<lambda>a. a_out a = Return (RetDecrement True))"

text \<open>Second exchanges that found dead-plus-assist with count zero and replaced it.\<close>

definition assist_wins :: "config \<Rightarrow> nat" where
  "assist_wins = count_actions (\<lambda>a. a_pc a = Decrement_cas2 (is_zero OR help_flag)
                                     \<and> a_out a = Return (RetDecrement True))"

subsection \<open>Invariants of a run\<close>

text \<open>
  While no subtraction has found the word at 1, the word is the number of owners
  (1 + additions - subtractions), it is at least 1, and every call has returned after
  its first atomic action, so every thread is idle.
\<close>

definition no_crossing_inv :: "config \<Rightarrow> bool" where
  "no_crossing_inv s =
     (unat (counter s) + subs s = 1 + adds s \<and> 1 \<le> unat (counter s) \<and> (\<forall>t. threads s t = None))"

text \<open>
  Once a second exchange has replaced dead-plus-assist by \<open>is_zero\<close>, the word stays
  within as many steps of \<open>is_zero\<close> as additions and subtractions were performed.
\<close>

definition after_assist_win :: "config \<Rightarrow> bool" where
  "after_assist_win s =
     (\<exists>d :: int. \<bar>d\<bar> \<le> int (adds s + subs s) \<and> counter s = word_of_int (2 ^ 63 + d))"

definition assist_inv :: "config \<Rightarrow> bool" where
  "assist_inv s = (assist_wins s = 0 \<or> (assist_wins s = 1 \<and> after_assist_win s))"

subsection \<open>Schedules examined below\<close>

text \<open>One thread: \<open>Read\<close>, \<open>Decrement\<close>, \<open>Read\<close>, \<open>Increment\<close>, \<open>Read\<close>.\<close>

definition linear :: "event list" where
  "linear = [Start 0 OpRead, Start 0 OpDecrement, Cont 0, Start 0 OpRead,
             Start 0 OpIncrement, Start 0 OpRead]"

text \<open>
  Thread 0 subtracts 1 to 0; thread 1 increments before thread 0's first exchange;
  thread 0 then performs both exchanges.
\<close>

definition racing_increment :: "event list" where
  "racing_increment = [Start 0 OpDecrement, Start 1 OpIncrement, Cont 0, Cont 0]"

text \<open>
  As before, but thread 1 also starts the \<open>Decrement\<close> matching its \<open>Increment\<close>
  before thread 0 goes on; then thread 0 finishes, then thread 1.
\<close>

definition two_winners :: "event list" where
  "two_winners = [Start 0 OpDecrement, Start 1 OpIncrement, Start 1 OpDecrement,
                  Cont 0, Cont 1, Cont 1]"

text \<open>
  Thread 0 subtracts 1 to 0; thread 1 reads the zero and files the assist request;
  thread 0's first exchange fails; thread 2 increments; thread 0's second exchange follows.
\<close>

definition no_winner :: "event list" where
  "no_winner = [Start 0 OpDecrement, Start 1 OpRead, Cont 1, Cont 0,
                Start 2 OpIncrement, Cont 0]"

text \<open>
  The schedule \<open>racing_increment\<close>, then thread 2 reads, thread 1 calls the
  \<open>Decrement\<close> matching its \<open>Increment\<close>, and thread 2 reads again.
\<close>

definition revived :: "event list" where
  "revived = [Start 0 OpDecrement, Start 1 OpIncrement, Cont 0, Cont 0,
              Start 2 OpRead, Start 1 OpDecrement, Start 2 OpRead]"

text \<open>
  Thread 2 loads the zero left by thread 0's subtraction and is delayed; thread 1
  increments, thread 0 finishes, thread 1 decrements; then thread 2's exchange runs.
\<close>

definition late_read :: "event list" where
  "late_read = [Start 0 OpDecrement, Start 2 OpRead, Start 1 OpIncrement, Cont 0, Cont 0,
                Start 1 OpDecrement, Cont 2]"

text \<open>Thread 0 subtracts 1 to 0, thread 1 reads and files the assist request, thread 0 claims it.\<close>

definition assisted :: "event list" where
  "assisted = [Start 0 OpDecrement, Start 1 OpRead, Cont 1, Cont 0, Cont 0]"

section \<open>Facts about the word\<close>

lemma is_zero_eq: "is_zero = 0x8000000000000000"
  by (simp add: is_zero_def)

lemma help_flag_eq: "help_flag = 0x4000000000000000"
  by (simp add: help_flag_def)

lemma dead_iff_bit: "dead c = bit c 63"
  unfolding dead_def is_zero_def push_bit_eq_mult
  by (simp only: mult_1 and_exp_eq_0_iff_not_bit) simp

lemma assist_iff_bit: "assist c = bit c 62"
  unfolding assist_def help_flag_def push_bit_eq_mult
  by (simp only: mult_1 and_exp_eq_0_iff_not_bit) simp

lemma live_count_take_bit: "live_count c = take_bit 62 c"
  by (simp add: live_count_def help_flag_def take_bit_eq_mask mask_eq_exp_minus_1 push_bit_eq_mult)

lemma below_is_zero_not_dead:
  assumes "unat (c :: uint64) < 2 ^ 63"
  shows "\<not> dead c"
proof
  assume "dead c"
  then have "bit (unat c) 63"
    by (simp add: dead_iff_bit bit_unsigned_iff)
  then have "odd (unat c div 2 ^ 63)"
    by (simp add: bit_iff_odd)
  with assms show False
    by simp
qed

lemma flags_clear_live_count:
  assumes d: "\<not> dead c" and a: "\<not> assist c"
  shows "live_count c = c"
proof -
  have "bit (take_bit 62 c) n = bit c n" for n
  proof (cases "n < 62")
    case True
    then show ?thesis
      by (simp add: bit_take_bit_iff)
  next
    case False
    then consider "n = 62" | "n = 63" | "64 \<le> n"
      by linarith
    then show ?thesis
    proof cases
      case 1
      then show ?thesis
        using a by (simp add: bit_take_bit_iff assist_iff_bit)
    next
      case 2
      then show ?thesis
        using d by (simp add: bit_take_bit_iff dead_iff_bit)
    next
      case 3
      then show ?thesis
        using bit_imp_le_length [of c n] by (auto simp add: bit_take_bit_iff)
    qed
  qed
  then show ?thesis
    by (simp add: live_count_take_bit bit_eq_iff)
qed

lemma live_count_not_one: "live_count c \<noteq> 1 \<Longrightarrow> c \<noteq> 1"
  by (auto simp: live_count_def help_flag_eq)

lemma unat_plus_one: "unat (c :: uint64) + 1 < 2 ^ 64 \<Longrightarrow> unat (c + 1) = unat c + 1"
  by (simp add: unat_word_ariths)

lemma unat_minus_one_pos: "1 \<le> unat (c :: uint64) \<Longrightarrow> unat (c - 1) = unat c - 1"
  by (metis not_one_le_zero unat_minus_one unsigned_0)

lemma uint_offset_from_is_zero:
  assumes "\<bar>d\<bar> < 2 ^ 62"
  shows "uint (word_of_int (2 ^ 63 + d) :: uint64) = 2 ^ 63 + d"
proof -
  have m: "uint (word_of_int x :: uint64) = x mod 2 ^ 64" for x
    by (simp add: uint_word_of_int)
  have "uint (word_of_int (2 ^ 63 + d) :: uint64) = (2 ^ 63 + d) mod 2 ^ 64"
    by (rule m)
  also have "\<dots> = 2 ^ 63 + d"
    using assms by (intro mod_pos_pos_trivial) auto
  finally show ?thesis .
qed

lemma offset_from_is_zero_not_zero:
  "\<bar>d\<bar> < 2 ^ 62 \<Longrightarrow> (word_of_int (2 ^ 63 + d) :: uint64) \<noteq> 0"
  using uint_offset_from_is_zero [of d] by auto

lemma offset_from_is_zero_not_assist:
  "\<bar>d\<bar> < 2 ^ 62 \<Longrightarrow> (word_of_int (2 ^ 63 + d) :: uint64) \<noteq> is_zero OR help_flag"
  using uint_offset_from_is_zero [of d] by (auto simp: is_zero_eq help_flag_eq)

section \<open>Facts about calls and steps\<close>

lemmas atomics = fetch_add_def fetch_sub_def load_def compare_exchange_strong_def

lemmas evaluate = init_def perform_def atomics is_zero_eq help_flag_eq count_actions_def

text \<open>Each atomic action, with the local code after it folded in.\<close>

lemma or_help_flag_nonzero: "(v OR help_flag) \<noteq> 0"
  by (simp add: or_eq_0_iff help_flag_eq)

lemma step_Increment_fetch_add:
  "atomic_step Increment_fetch_add c = (Return (RetIncrement (\<not> dead c)), c + 1)"
  by (simp add: fetch_add_def dead_def)

lemma step_Decrement_fetch_sub:
  "atomic_step Decrement_fetch_sub c =
     (if c = 1 then Next Decrement_cas1 else Return (RetDecrement False), c - 1)"
  by (simp add: fetch_sub_def)

lemma step_Decrement_cas1:
  "atomic_step Decrement_cas1 c =
     (if c = 0 then (Return (RetDecrement True), is_zero) else (Next (Decrement_cas2 c), c))"
  by (simp add: compare_exchange_strong_def or_help_flag_nonzero)

lemma step_Decrement_cas2:
  "atomic_step (Decrement_cas2 v) c =
     (if c = v then (Return (RetDecrement True), is_zero) else (Return (RetDecrement False), c))"
  by (simp add: compare_exchange_strong_def)

lemma step_Read_load:
  "atomic_step Read_load c =
     (if c = 0 then Next Read_cas else Return (RetRead (if dead c then 0 else c)), c)"
  by (simp add: load_def dead_def)

lemma step_Read_cas:
  "atomic_step Read_cas c =
     (if c = 0 then (Return (RetRead 0), is_zero OR help_flag)
      else (Return (RetRead (if dead c then 0 else c)), c))"
  by (simp add: compare_exchange_strong_def dead_def)

text \<open>The three calls when nothing else touches the word between their atomic actions.\<close>

lemma Increment_alone: "Increment c = (RetIncrement (\<not> dead c), c + 1)"
  by (simp add: Increment_def run_op.simps [of Increment_fetch_add] fetch_add_def dead_def)

lemma Decrement_alone:
  "Decrement c = (if c = 1 then (RetDecrement True, is_zero) else (RetDecrement False, c - 1))"
  by (simp add: Decrement_def run_op.simps [of Decrement_fetch_sub] run_op.simps [of Decrement_cas1]
      fetch_sub_def compare_exchange_strong_def)

lemma Read_alone:
  "Read c = (if c = 0 then (RetRead 0, is_zero OR help_flag)
             else (RetRead (if dead c then 0 else c), c))"
  by (simp add: Read_def run_op.simps [of Read_load] run_op.simps [of Read_cas]
      load_def compare_exchange_strong_def dead_def)

lemma counter_perform: "counter (perform t p s) = snd (atomic_step p (counter s))"
  by (simp add: perform_def split: prod.splits)

lemma threads_perform:
  "threads (perform t p s) =
     (threads s)(t := (case fst (atomic_step p (counter s)) of Next p' \<Rightarrow> Some p' | Return r \<Rightarrow> None))"
  by (simp add: perform_def split: prod.splits)

lemma trace_perform:
  "trace (perform t p s) =
     trace s @ [\<lparr>a_tid = t, a_pc = p, a_old = counter s,
                 a_new = snd (atomic_step p (counter s)),
                 a_out = fst (atomic_step p (counter s))\<rparr>]"
  by (simp add: perform_def split: prod.splits)

lemma idle_stays_idle: "threads s t = None \<Longrightarrow> (threads s)(t := None) = threads s"
  by (simp add: fun_upd_idem)

section \<open>Invariants\<close>

text \<open>How one atomic action changes what the trace shows.\<close>

lemma count_actions_perform:
  "count_actions P (perform t p s) =
     count_actions P s +
       (if P \<lparr>a_tid = t, a_pc = p, a_old = counter s,
               a_new = snd (atomic_step p (counter s)),
               a_out = fst (atomic_step p (counter s))\<rparr> then 1 else 0)"
  by (simp add: count_actions_def trace_perform del: atomic_step.simps)

lemma adds_perform: "adds (perform t p s) = adds s + (if p = Increment_fetch_add then 1 else 0)"
  by (simp add: adds_def count_actions_perform del: atomic_step.simps)

lemma subs_perform: "subs (perform t p s) = subs s + (if p = Decrement_fetch_sub then 1 else 0)"
  by (simp add: subs_def count_actions_perform del: atomic_step.simps)

lemma zero_crossings_perform:
  "zero_crossings (perform t p s) =
     zero_crossings s + (if p = Decrement_fetch_sub \<and> counter s = 1 then 1 else 0)"
  by (simp add: zero_crossings_def count_actions_perform del: atomic_step.simps)

lemma assist_wins_perform:
  "assist_wins (perform t p s) =
     assist_wins s + (if p = Decrement_cas2 (is_zero OR help_flag)
                         \<and> counter s = is_zero OR help_flag then 1 else 0)"
  by (auto simp add: assist_wins_def count_actions_perform step_Decrement_cas2
      simp del: atomic_step.simps split: if_splits)

lemma returned_append: "returned (xs @ ys) = returned xs @ returned ys"
  by (induction xs) (auto split: outcome.splits)

text \<open>A scheduler event is skipped, starts a call of an idle thread, or continues a call.\<close>

lemma step_cases:
  obtains (skip) "step e s = s"
  | (start) t p where "step e s = perform t p s" "threads s t = None"
      "p = Increment_fetch_add \<or> p = Decrement_fetch_sub \<or> p = Read_load"
  | (cont) t p where "step e s = perform t p s" "threads s t = Some p"
proof (cases e)
  case (Start t oper)
  show ?thesis
  proof (cases "threads s t")
    case None
    with Start have "step e s = perform t (entry_point oper) s" by simp
    moreover have "entry_point oper = Increment_fetch_add \<or> entry_point oper = Decrement_fetch_sub \<or> entry_point oper = Read_load"
      by (cases oper) auto
    ultimately show ?thesis using None start by blast
  next
    case (Some p)
    with Start have "step e s = s" by simp
    then show ?thesis by (rule skip)
  qed
next
  case (Cont t)
  show ?thesis
  proof (cases "threads s t")
    case None
    with Cont have "step e s = s" by simp
    then show ?thesis by (rule skip)
  next
    case (Some p)
    with Cont have "step e s = perform t p s" by simp
    then show ?thesis using Some cont by blast
  qed
qed

subsection \<open>Before the first zero crossing\<close>

lemma no_crossing_perform:
  assumes inv: "no_crossing_inv s"
    and p: "p = Increment_fetch_add \<or> p = Decrement_fetch_sub \<or> p = Read_load"
    and z: "zero_crossings (perform t p s) = 0"
    and b: "adds (perform t p s) + 1 < 2 ^ 62"
  shows "no_crossing_inv (perform t p s)"
proof -
  from inv have eq: "unat (counter s) + subs s = 1 + adds s" and pos: "1 \<le> unat (counter s)"
    and idle: "\<And>u. threads s u = None"
    by (auto simp: no_crossing_inv_def)
  from pos have nz: "counter s \<noteq> 0"
    by auto
  from p show ?thesis
  proof (elim disjE)
    assume i: "p = Increment_fetch_add"
    with b have "adds s + 2 < 2 ^ 62"
      by (simp add: adds_perform)
    with eq have "unat (counter s) + 1 < 2 ^ 64"
      by simp
    then have "unat (counter s + 1) = unat (counter s) + 1"
      by (rule unat_plus_one)
    with eq idle i show ?thesis
      by (simp add: no_crossing_inv_def counter_perform threads_perform adds_perform
          subs_perform step_Increment_fetch_add del: atomic_step.simps)
  next
    assume d: "p = Decrement_fetch_sub"
    with z have n1: "counter s \<noteq> 1"
      by (simp add: zero_crossings_perform split: if_splits)
    then have "unat (counter s) \<noteq> 1"
      by (simp add: word_unat_eq_iff)
    with pos have two: "2 \<le> unat (counter s)"
      by simp
    from pos have "unat (counter s - 1) = unat (counter s) - 1"
      by (rule unat_minus_one_pos)
    with eq idle d two n1 show ?thesis
      by (simp add: no_crossing_inv_def counter_perform threads_perform adds_perform
          subs_perform step_Decrement_fetch_sub del: atomic_step.simps)
  next
    assume r: "p = Read_load"
    with eq pos idle nz show ?thesis
      by (simp add: no_crossing_inv_def counter_perform threads_perform adds_perform
          subs_perform step_Read_load del: atomic_step.simps)
  qed
qed


lemma no_crossing_step:
  assumes "zero_crossings s = 0 \<and> adds s + 1 < 2 ^ 62 \<longrightarrow> no_crossing_inv s"
  shows "zero_crossings (step e s) = 0 \<and> adds (step e s) + 1 < 2 ^ 62
         \<longrightarrow> no_crossing_inv (step e s)"
proof (cases e s rule: step_cases)
  case skip
  with assms show ?thesis by simp
next
  case (start t p)
  show ?thesis
  proof
    assume post: "zero_crossings (step e s) = 0 \<and> adds (step e s) + 1 < 2 ^ 62"
    with start have "zero_crossings s = 0" and "adds s + 1 < 2 ^ 62"
      by (auto simp: zero_crossings_perform adds_perform split: if_splits)
    with assms have "no_crossing_inv s" by simp
    with start post show "no_crossing_inv (step e s)"
      by (simp add: no_crossing_perform)
  qed
next
  case (cont t p)
  show ?thesis
  proof
    assume post: "zero_crossings (step e s) = 0 \<and> adds (step e s) + 1 < 2 ^ 62"
    with cont have "zero_crossings s = 0" and "adds s + 1 < 2 ^ 62"
      by (auto simp: zero_crossings_perform adds_perform split: if_splits)
    with assms have "no_crossing_inv s" by simp
    with cont show "no_crossing_inv (step e s)"
      by (simp add: no_crossing_inv_def)
  qed
qed

lemma no_crossing_run:
  "zero_crossings s = 0 \<and> adds s + 1 < 2 ^ 62 \<longrightarrow> no_crossing_inv s \<Longrightarrow>
   zero_crossings (run es s) = 0 \<and> adds (run es s) + 1 < 2 ^ 62 \<longrightarrow> no_crossing_inv (run es s)"
proof (induction es arbitrary: s)
  case Nil
  then show ?case by simp
next
  case (Cons e es)
  from Cons.prems have "zero_crossings (step e s) = 0 \<and> adds (step e s) + 1 < 2 ^ 62
         \<longrightarrow> no_crossing_inv (step e s)"
    by (rule no_crossing_step)
  then show ?case
    using Cons.IH [of "step e s"] by simp
qed

lemma no_crossing_init: "no_crossing_inv init"
  by (simp add: no_crossing_inv_def init_def adds_def subs_def count_actions_def)

subsection \<open>After the assist flag has been consumed\<close>

lemma after_assist_win_is_zero: "counter s = is_zero \<Longrightarrow> after_assist_win s"
  unfolding after_assist_win_def
  by (rule exI [of _ 0]) (simp add: is_zero_eq)

lemma assist_perform:
  assumes inv: "assist_inv s"
    and b: "adds (perform t p s) + subs (perform t p s) < 2 ^ 62"
  shows "assist_inv (perform t p s)"
proof -
  from b have b0: "adds s + subs s < 2 ^ 62"
    by (simp add: adds_perform subs_perform split: if_splits)
  from inv consider (none) "assist_wins s = 0" | (one) "assist_wins s = 1" "after_assist_win s"
    by (auto simp: assist_inv_def)
  then show ?thesis
  proof cases
    case none
    show ?thesis
    proof (cases "p = Decrement_cas2 (is_zero OR help_flag) \<and> counter s = is_zero OR help_flag")
      case True
      then have "counter (perform t p s) = is_zero"
        by (simp add: counter_perform step_Decrement_cas2 del: atomic_step.simps)
      then have "after_assist_win (perform t p s)"
        by (rule after_assist_win_is_zero)
      with none True show ?thesis
        by (simp add: assist_inv_def assist_wins_perform)
    next
      case False
      with none show ?thesis
        by (auto simp add: assist_inv_def assist_wins_perform)
    qed
  next
    case one
    then obtain d :: int where d: "\<bar>d\<bar> \<le> int (adds s + subs s)"
      and c: "counter s = word_of_int (2 ^ 63 + d)"
      by (auto simp: after_assist_win_def)
    from b0 have "int (adds s + subs s) < int (2 ^ 62)"
      by (simp only: of_nat_less_iff)
    then have "int (adds s + subs s) < 2 ^ 62"
      by simp
    with d have small: "\<bar>d\<bar> < 2 ^ 62"
      by linarith
    have nz: "counter s \<noteq> 0"
      unfolding c using small by (rule offset_from_is_zero_not_zero)
    have na: "counter s \<noteq> is_zero OR help_flag"
      unfolding c using small by (rule offset_from_is_zero_not_assist)
    from na one have wins: "assist_wins (perform t p s) = 1"
      by (simp add: assist_wins_perform)
    have "after_assist_win (perform t p s)"
    proof (cases p)
      case Increment_fetch_add
      then have "counter (perform t p s) = word_of_int (2 ^ 63 + (d + 1))"
        using c by (simp add: counter_perform step_Increment_fetch_add del: atomic_step.simps)
      moreover have "\<bar>d + 1\<bar> \<le> int (adds (perform t p s) + subs (perform t p s))"
        using d Increment_fetch_add by (simp add: adds_perform subs_perform)
      ultimately show ?thesis
        unfolding after_assist_win_def by blast
    next
      case Decrement_fetch_sub
      then have "counter (perform t p s) = word_of_int (2 ^ 63 + (d - 1))"
        using c by (simp add: counter_perform step_Decrement_fetch_sub del: atomic_step.simps)
      moreover have "\<bar>d - 1\<bar> \<le> int (adds (perform t p s) + subs (perform t p s))"
        using d Decrement_fetch_sub by (simp add: adds_perform subs_perform)
      ultimately show ?thesis
        unfolding after_assist_win_def by blast
    next
      case Decrement_cas1
      with nz have "counter (perform t p s) = counter s"
        by (simp add: counter_perform step_Decrement_cas1 del: atomic_step.simps)
      with c d Decrement_cas1 show ?thesis
        unfolding after_assist_win_def by (auto simp: adds_perform subs_perform)
    next
      case (Decrement_cas2 v)
      show ?thesis
      proof (cases "counter s = v")
        case True
        with Decrement_cas2 have "counter (perform t p s) = is_zero"
          by (simp add: counter_perform step_Decrement_cas2 del: atomic_step.simps)
        then show ?thesis
          by (rule after_assist_win_is_zero)
      next
        case False
        with Decrement_cas2 have "counter (perform t p s) = counter s"
          by (simp add: counter_perform step_Decrement_cas2 del: atomic_step.simps)
        with c d Decrement_cas2 show ?thesis
          unfolding after_assist_win_def by (auto simp: adds_perform subs_perform)
      qed
    next
      case Read_load
      then have "counter (perform t p s) = counter s"
        by (simp add: counter_perform step_Read_load del: atomic_step.simps)
      with c d Read_load show ?thesis
        unfolding after_assist_win_def by (auto simp: adds_perform subs_perform)
    next
      case Read_cas
      with nz have "counter (perform t p s) = counter s"
        by (simp add: counter_perform step_Read_cas del: atomic_step.simps)
      with c d Read_cas show ?thesis
        unfolding after_assist_win_def by (auto simp: adds_perform subs_perform)
    qed
    with wins show ?thesis
      by (simp add: assist_inv_def)
  qed
qed

lemma assist_step:
  assumes "adds s + subs s < 2 ^ 62 \<longrightarrow> assist_inv s"
  shows "adds (step e s) + subs (step e s) < 2 ^ 62 \<longrightarrow> assist_inv (step e s)"
proof (cases e s rule: step_cases)
  case skip
  with assms show ?thesis by simp
next
  case (start t p)
  show ?thesis
  proof
    assume post: "adds (step e s) + subs (step e s) < 2 ^ 62"
    with start have "adds s + subs s < 2 ^ 62"
      by (simp add: adds_perform subs_perform split: if_splits)
    with assms have "assist_inv s" by simp
    with start post show "assist_inv (step e s)"
      by (simp add: assist_perform)
  qed
next
  case (cont t p)
  show ?thesis
  proof
    assume post: "adds (step e s) + subs (step e s) < 2 ^ 62"
    with cont have "adds s + subs s < 2 ^ 62"
      by (simp add: adds_perform subs_perform split: if_splits)
    with assms have "assist_inv s" by simp
    with cont post show "assist_inv (step e s)"
      by (simp add: assist_perform)
  qed
qed

lemma assist_run:
  "adds s + subs s < 2 ^ 62 \<longrightarrow> assist_inv s \<Longrightarrow>
   adds (run es s) + subs (run es s) < 2 ^ 62 \<longrightarrow> assist_inv (run es s)"
proof (induction es arbitrary: s)
  case Nil
  then show ?case by simp
next
  case (Cons e es)
  from Cons.prems have "adds (step e s) + subs (step e s) < 2 ^ 62 \<longrightarrow> assist_inv (step e s)"
    by (rule assist_step)
  then show ?case
    using Cons.IH [of "step e s"] by simp
qed

lemma assist_init: "assist_inv init"
  by (simp add: assist_inv_def init_def assist_wins_def count_actions_def)

section \<open>Increment\<close>

text \<open>
  C6. For every word, \<open>Increment\<close> adds one to it in a single atomic action and returns
  false exactly when the dead flag (bit 63) is set in the word as it was before the
  addition; otherwise it returns true.
\<close>

theorem Increment_reports_dead_flag:
  "atomic_step Increment_fetch_add c = (Return (RetIncrement (\<not> dead c)), c + 1)
   \<and> Increment c = (RetIncrement (\<not> dead c), c + 1)
   \<and> dead c = bit c 63"
  by (simp add: Increment_alone fetch_add_def dead_def [symmetric] dead_iff_bit)

section \<open>Decrement\<close>

text \<open>
  C7. When the live count found by the subtraction is not exactly 1, \<open>Decrement\<close>
  subtracts one from the word and returns false: the subtraction is the only atomic
  action of the call, the thread is idle afterwards and no exchange is attempted.
\<close>

theorem Decrement_not_last_owner:
  assumes "live_count (counter s) \<noteq> 1" and "threads s t = None"
  shows "Decrement (counter s) = (RetDecrement False, counter s - 1)
       \<and> counter (step (Start t OpDecrement) s) = counter s - 1
       \<and> threads (step (Start t OpDecrement) s) = threads s
       \<and> trace (step (Start t OpDecrement) s) =
            trace s @ [\<lparr>a_tid = t, a_pc = Decrement_fetch_sub, a_old = counter s,
                        a_new = counter s - 1, a_out = Return (RetDecrement False)\<rparr>]"
proof -
  from assms(1) have "counter s \<noteq> 1"
    by (rule live_count_not_one)
  with assms(2) show ?thesis
    by (simp add: Decrement_alone counter_perform threads_perform trace_perform fetch_sub_def
        idle_stays_idle)
qed

theorem Decrement_not_last_owner_witness:
  "live_count (counter (run [Start 7 OpIncrement] init)) \<noteq> 1
   \<and> threads (run [Start 7 OpIncrement] init) 3 = None
   \<and> Decrement (counter (run [Start 7 OpIncrement] init)) = (RetDecrement False, 1)
   \<and> counter (step (Start 3 OpDecrement) (run [Start 7 OpIncrement] init)) = 1
   \<and> returned (trace (step (Start 3 OpDecrement) (run [Start 7 OpIncrement] init))) =
        [(7, RetIncrement True), (3, RetDecrement False)]"
  using Decrement_not_last_owner [of "run [Start 7 OpIncrement] init" 3]
  by (simp add: evaluate live_count_def)

text \<open>
  C5. A \<open>Decrement\<close> whose first exchange finds dead-plus-assist with count zero goes
  on to a second exchange expecting that word and writing \<open>is_zero\<close>: the assist flag
  is cleared, the dead flag stays. The call that wins this exchange returns true. In
  every run with fewer than \<open>2 ^ 62\<close> additions and subtractions (no overflow of the
  count) at most one such exchange succeeds.
\<close>

theorem assist_flag_consumed_once:
  "atomic_step Decrement_cas1 (is_zero OR help_flag) =
     (Next (Decrement_cas2 (is_zero OR help_flag)), is_zero OR help_flag)
   \<and> atomic_step (Decrement_cas2 (is_zero OR help_flag)) (is_zero OR help_flag) =
       (Return (RetDecrement True), is_zero)
   \<and> dead (is_zero OR help_flag) \<and> assist (is_zero OR help_flag)
   \<and> live_count (is_zero OR help_flag) = 0
   \<and> dead is_zero \<and> \<not> assist is_zero
   \<and> (adds (run sched init) + subs (run sched init) < 2 ^ 62
        \<longrightarrow> assist_wins (run sched init) \<le> 1)"
proof -
  have "adds (run sched init) + subs (run sched init) < 2 ^ 62 \<longrightarrow> assist_inv (run sched init)"
    using assist_init by (intro assist_run) simp
  then have "adds (run sched init) + subs (run sched init) < 2 ^ 62
        \<longrightarrow> assist_wins (run sched init) \<le> 1"
    by (auto simp: assist_inv_def)
  moreover have "is_zero OR help_flag \<noteq> 0"
    by (simp add: is_zero_eq help_flag_eq)
  ultimately show ?thesis
    by (simp add: step_Decrement_cas1 step_Decrement_cas2 dead_def assist_def live_count_def
        is_zero_eq help_flag_eq del: atomic_step.simps)
qed

theorem assist_flag_consumed_once_witness:
  "adds (run assisted init) + subs (run assisted init) < 2 ^ 62
   \<and> assist_wins (run assisted init) = 1
   \<and> returned (trace (run assisted init)) = [(1, RetRead 0), (0, RetDecrement True)]
   \<and> counter (run assisted init) = is_zero"
  using assist_flag_consumed_once [of assisted]
  by (simp add: assisted_def evaluate adds_def subs_def assist_wins_def)

text \<open>
  C4. In the schedule \<open>racing_increment\<close> the subtraction of thread 0 takes the word
  from 1 to 0, the \<open>Increment\<close> of thread 1 brings it back to 1, and the first exchange
  of thread 0 fails leaving \<open>v = 1\<close>, a clean nonzero count. The test \<open>(v | help)\<close> is
  nonzero for every \<open>v\<close>, so the second exchange is attempted with \<open>v = 1\<close> expected;
  it succeeds and the call returns true, with the dead flag set while thread 1 holds
  the counter.
\<close>

theorem Decrement_after_racing_Increment:
  "map a_old (trace (run racing_increment init)) = [1, 0, 1, 1]
   \<and> map a_out (trace (run racing_increment init)) =
        [Next Decrement_cas1, Return (RetIncrement True),
         Next (Decrement_cas2 1), Return (RetDecrement True)]
   \<and> \<not> dead 1 \<and> \<not> assist 1
   \<and> returned (trace (run racing_increment init)) =
        [(1, RetIncrement True), (0, RetDecrement True)]
   \<and> counter (run racing_increment init) = is_zero"
  by (simp add: racing_increment_def evaluate dead_def assist_def)

text \<open>
  C1. Two schedules with as many \<open>Decrement\<close> calls as increments that took effect.
  In \<open>two_winners\<close> (two owners, two calls) both calls return true: thread 1's first
  exchange fails on the word \<open>is_zero\<close> that thread 0 has just written, and its second
  exchange replaces \<open>is_zero\<close> by \<open>is_zero\<close>. In \<open>no_winner\<close> (one owner, one call; the
  \<open>Increment\<close> of thread 2 returns false) the only call returns false: the addition
  lands between the two exchanges, so the second one no longer finds the word it expects.
\<close>

theorem Decrement_winners_not_one:
  "returned (trace (run two_winners init)) =
     [(1, RetIncrement True), (0, RetDecrement True), (1, RetDecrement True)]
   \<and> threads (run two_winners init) = (\<lambda>t. None)
   \<and> adds (run two_winners init) = 1 \<and> subs (run two_winners init) = 2
   \<and> outstanding (run two_winners init) = 0
   \<and> decrement_winners (run two_winners init) = 2
   \<and> returned (trace (run no_winner init)) =
        [(1, RetRead 0), (2, RetIncrement False), (0, RetDecrement False)]
   \<and> threads (run no_winner init) = (\<lambda>t. None)
   \<and> subs (run no_winner init) = 1
   \<and> decrement_winners (run no_winner init) = 0"
  by (simp add: two_winners_def no_winner_def evaluate adds_def subs_def outstanding_def
      decrement_winners_def)

text \<open>
  C2. In the schedule \<open>revived\<close> every \<open>Decrement\<close> is matched (thread 0 by the initial
  ownership, thread 1 by its own \<open>Increment\<close>, which returned true). After thread 0's
  second exchange the word is \<open>is_zero\<close> and thread 2 reads 0. Thread 1's subtraction
  then turns the word into \<open>is_zero - 1\<close>, which has the dead flag clear, and the next
  \<open>Read\<close> of thread 2 returns that nonzero word.
\<close>

theorem dead_flag_cleared_after_Read_zero:
  "map a_new (trace (run revived init)) =
     [0, 1, 1, is_zero, is_zero, is_zero - 1, is_zero - 1]
   \<and> returned (trace (run revived init)) =
        [(1, RetIncrement True), (0, RetDecrement True), (2, RetRead 0),
         (1, RetDecrement False), (2, RetRead (is_zero - 1))]
   \<and> dead is_zero \<and> \<not> dead (is_zero - 1) \<and> is_zero - 1 \<noteq> 0
   \<and> adds (run revived init) = 1 \<and> subs (run revived init) = 2"
  by (simp add: revived_def evaluate dead_def adds_def subs_def)

section \<open>Read\<close>

text \<open>
  C8. In the schedule \<open>late_read\<close> thread 2 loads the zero left by thread 0's
  subtraction. Thread 1's \<open>Increment\<close> brings the word to 1, thread 0's second exchange
  replaces that 1 by \<open>is_zero\<close> (the test \<open>(v | help)\<close> again), and thread 1's matching
  \<open>Decrement\<close> turns \<open>is_zero\<close> into \<open>is_zero - 1\<close>. The exchange of thread 2 then
  fails, the refreshed word \<open>is_zero - 1\<close> has the dead flag clear and the assist flag
  set, and \<open>Read\<close> returns that word: a value beyond 62 bits, not the live count
  \<open>help_flag - 1\<close> of the word.
\<close>

theorem Read_returns_word_not_live_count:
  "map a_pc (trace (run late_read init)) =
     [Decrement_fetch_sub, Read_load, Increment_fetch_add, Decrement_cas1,
      Decrement_cas2 1, Decrement_fetch_sub, Read_cas]
   \<and> map a_new (trace (run late_read init)) =
       [0, 0, 1, 1, is_zero, is_zero - 1, is_zero - 1]
   \<and> a_pc (last (trace (run late_read init))) = Read_cas
   \<and> a_old (last (trace (run late_read init))) = is_zero - 1
   \<and> a_new (last (trace (run late_read init))) = is_zero - 1
   \<and> \<not> dead (is_zero - 1) \<and> assist (is_zero - 1)
   \<and> a_out (last (trace (run late_read init))) = Return (RetRead (is_zero - 1))
   \<and> live_count (is_zero - 1) = help_flag - 1
   \<and> a_out (last (trace (run late_read init))) \<noteq> Return (RetRead (live_count (is_zero - 1)))
   \<and> unat (is_zero - 1) = 2 ^ 63 - 1"
  by (simp add: late_read_def evaluate dead_def assist_def live_count_def)

text \<open>
  C3. In every state a run reaches in which no subtraction has driven the word from 1
  to 0, ownership is outstanding and the count fits its 62 bits, the word is nonzero
  and a \<open>Read\<close> returns it: \<open>Read\<close> does not return 0.
\<close>

theorem Read_nonzero_before_zero_crossing:
  assumes "s = run sched init"
    and "zero_crossings s = 0"
    and "0 < outstanding s"
    and "adds s + 1 < 2 ^ 62"
  shows "counter s \<noteq> 0
       \<and> Read (counter s) = (RetRead (counter s), counter s)
       \<and> returned (trace (step (Start t OpRead) s)) = returned (trace s) @ [(t, RetRead (counter s))]"
proof -
  have "no_crossing_inv s"
    using no_crossing_run [of init sched] assms(1,2,4) no_crossing_init by simp
  then have eq: "unat (counter s) + subs s = 1 + adds s" and pos: "1 \<le> unat (counter s)"
    and idle: "threads s t = None"
    by (auto simp: no_crossing_inv_def)
  from pos have nz: "counter s \<noteq> 0"
    by auto
  from eq assms(4) have "unat (counter s) < 2 ^ 63"
    by simp
  then have nd: "\<not> dead (counter s)"
    by (rule below_is_zero_not_dead)
  from nz nd idle show ?thesis
    by (simp add: Read_alone trace_perform returned_append step_Read_load del: atomic_step.simps)
qed

theorem Read_nonzero_before_zero_crossing_witness:
  "zero_crossings (run [Start 0 OpIncrement, Start 1 OpIncrement, Start 0 OpDecrement] init) = 0
   \<and> 0 < outstanding (run [Start 0 OpIncrement, Start 1 OpIncrement, Start 0 OpDecrement] init)
   \<and> adds (run [Start 0 OpIncrement, Start 1 OpIncrement, Start 0 OpDecrement] init) + 1 < 2 ^ 62
   \<and> counter (run [Start 0 OpIncrement, Start 1 OpIncrement, Start 0 OpDecrement] init) = 2
   \<and> Read 2 = (RetRead 2, 2)"
  using Read_nonzero_before_zero_crossing
    [of "run [Start 0 OpIncrement, Start 1 OpIncrement, Start 0 OpDecrement] init"
        "[Start 0 OpIncrement, Start 1 OpIncrement, Start 0 OpDecrement]" 5]
  by (simp add: evaluate zero_crossings_def outstanding_def adds_def subs_def)


text \<open>
  C10. When the word is nonzero, a \<open>Read\<close> writes nothing: its load is its only atomic
  action, the word is the same afterwards and the thread is idle again.
\<close>

theorem Read_nonzero_writes_nothing:
  assumes "counter s \<noteq> 0" and "threads s t = None"
  shows "snd (Read (counter s)) = counter s
       \<and> counter (step (Start t OpRead) s) = counter s
       \<and> threads (step (Start t OpRead) s) = threads s
       \<and> trace (step (Start t OpRead) s) =
            trace s @ [\<lparr>a_tid = t, a_pc = Read_load, a_old = counter s, a_new = counter s,
                        a_out = Return (RetRead (if dead (counter s) then 0 else counter s))\<rparr>]"
  using assms
  by (simp add: Read_alone counter_perform threads_perform trace_perform step_Read_load
      idle_stays_idle del: atomic_step.simps)

theorem Read_nonzero_writes_nothing_witness:
  "counter (run [Start 7 OpIncrement] init) \<noteq> 0
   \<and> threads (run [Start 7 OpIncrement] init) 3 = None
   \<and> snd (Read (counter (run [Start 7 OpIncrement] init))) = 2
   \<and> counter (step (Start 3 OpRead) (run [Start 7 OpIncrement] init)) = 2
   \<and> returned (trace (step (Start 3 OpRead) (run [Start 7 OpIncrement] init))) =
        [(7, RetIncrement True), (3, RetRead 2)]"
  using Read_nonzero_writes_nothing [of "run [Start 7 OpIncrement] init" 3]
  by (simp add: evaluate dead_def)

section \<open>Construction and the linear scenario\<close>

text \<open>
  C9. A new counter holds the word 1: live count 1, both flags clear. One thread calling
  \<open>Read\<close>, \<open>Decrement\<close>, \<open>Read\<close>, \<open>Increment\<close>, \<open>Read\<close> in this order gets 1, true, 0,
  false, 0.
\<close>

theorem linear_scenario:
  "counter init = 1 \<and> live_count (counter init) = 1
   \<and> \<not> dead (counter init) \<and> \<not> assist (counter init)
   \<and> Read 1 = (RetRead 1, 1)
   \<and> Decrement 1 = (RetDecrement True, is_zero)
   \<and> Read is_zero = (RetRead 0, is_zero)
   \<and> Increment is_zero = (RetIncrement False, is_zero + 1)
   \<and> Read (is_zero + 1) = (RetRead 0, is_zero + 1)
   \<and> returned (trace (run linear init)) =
        [(0, RetRead 1), (0, RetDecrement True), (0, RetRead 0),
         (0, RetIncrement False), (0, RetRead 0)]"
  by (simp add: linear_def evaluate Read_alone Decrement_alone Increment_alone
      dead_def assist_def live_count_def)

end
